theory Spec2Isabelle
  imports Main
begin

section \<open>Values shared by the model\<close>

text \<open>
  An error value handed to a callback. The code only tests it for truthiness
  (\<^verbatim>\<open>if (err)\<close>), so a callback's first argument is an \<open>err option\<close>:
  \<open>None\<close> is a falsy first argument (no error), \<open>Some e\<close> a truthy one.
  A JavaScript exception raised by the code itself is a \<open>js_error\<close>.
  The wrapper \<^verbatim>\<open>tick\<close> around the callbacks given to the backend
  (./utils, not under src/) is taken to pass its arguments on to the function it
  wraps.
\<close>

datatype err = Err string

datatype js_error = TypeError

section \<open>Document state machine: \<^verbatim>\<open>Model.prototype.save\<close> and \<^verbatim>\<open>handleSave\<close>\<close>

text \<open>
  The fields of a document that \<^verbatim>\<open>save\<close> and \<^verbatim>\<open>handleSave\<close>
  (src/lib/model.js, lines 69-92 and 121-151) read or write: \<^verbatim>\<open>_id\<close>,
  \<^verbatim>\<open>_rev\<close>, \<^verbatim>\<open>isNew\<close>, \<^verbatim>\<open>$__.inserting\<close>, the
  document's content (what \<^verbatim>\<open>toObject\<close> serialises) and its modified paths.
\<close>

record 'b entity =
  ent_id :: "string option"
  ent_rev :: "string option"
  isNew :: bool
  inserting :: bool
  content :: 'b
  dirtyPaths :: "string list"

record save_result =
  res_id :: string
  res_rev :: string

text \<open>What a save does beyond changing the document, in program order.\<close>

datatype 'b save_effect =
    Insert "string option" "string option" 'b "string option"
  | EmitIsNew bool
  | EmitSave nat
  | PromiseError err
  | PromiseComplete nat

text \<open>
  Modelled from the spec: \<^verbatim>\<open>Document.prototype._reset\<close> is not under src/; the
  spec says a save clears the dirty state.
\<close>

definition reset :: "'b entity \<Rightarrow> 'b entity" where
  "reset e = e\<lparr>dirtyPaths := []\<rparr>"

text \<open>
  \<^verbatim>\<open>toObject({ depopulate: 1 })\<close> followed by \<^verbatim>\<open>collection.insert(obj, options, complete)\<close>:
  the backend receives a snapshot of the document taken before \<^verbatim>\<open>_reset\<close>, and
  \<^verbatim>\<open>options.safe\<close> only when the schema's \<^verbatim>\<open>safe\<close> option is truthy (\<open>Some\<close>).
\<close>

definition insert_call :: "string option \<Rightarrow> 'b entity \<Rightarrow> 'b save_effect" where
  "insert_call safe e = Insert (ent_id e) (ent_rev e) (content e) safe"

text \<open>The synchronous part of \<^verbatim>\<open>Model.prototype.save\<close>.\<close>

definition save :: "string option \<Rightarrow> 'b entity \<Rightarrow> 'b entity \<times> 'b save_effect list" where
  "save safe e =
     (if isNew e
      then ((reset e)\<lparr>isNew := False, inserting := True\<rparr>,
            [insert_call safe e, EmitIsNew False])
      else (reset (e\<lparr>inserting := False\<rparr>),
            [insert_call safe (e\<lparr>inserting := False\<rparr>), EmitIsNew False]))"

text \<open>
  The callback built by \<^verbatim>\<open>handleSave(promise, self)\<close>, called by the backend with
  \<^verbatim>\<open>(err, result)\<close>. With a falsy \<^verbatim>\<open>err\<close> and no \<^verbatim>\<open>result\<close>,
  \<^verbatim>\<open>result.id\<close> raises a TypeError.
\<close>

definition handleSave ::
  "err option \<Rightarrow> save_result option \<Rightarrow> 'b entity \<Rightarrow> js_error + 'b entity \<times> 'b save_effect list" where
  "handleSave er result self =
     (case er of
        Some e \<Rightarrow>
          (if inserting self
           then Inr (self\<lparr>isNew := True\<rparr>, [EmitIsNew True, PromiseError e])
           else Inr (self, [PromiseError e]))
      | None \<Rightarrow>
          (case result of
             None \<Rightarrow> Inl TypeError
           | Some r \<Rightarrow>
               Inr (self\<lparr>ent_id := Some (res_id r), ent_rev := Some (res_rev r)\<rparr>,
                    [EmitSave 1, PromiseComplete 1])))"

text \<open>
  A save whose backend round-trip fails: \<^verbatim>\<open>save\<close> runs to its end, then the
  backend calls the callback with the error; nothing else touches the document
  in between.
\<close>

definition failed_save ::
  "string option \<Rightarrow> err \<Rightarrow> save_result option \<Rightarrow> 'b entity \<Rightarrow> js_error + 'b entity \<times> 'b save_effect list" where
  "failed_save safe e result self = handleSave (Some e) result (fst (save safe self))"

text \<open>
  C3. After a save that was issued while the document was new fails, the document
  is new again; after a save that was issued while it was not new fails, it is
  still not new. In both cases the failure handler returns normally and the
  promise receives the backend's error.
\<close>

theorem failed_save_isNew:
  "\<exists>self' fx. failed_save safe e result self = Inr (self', fx)
      \<and> isNew self' = isNew self \<and> last fx = PromiseError e"
  by (simp add: failed_save_def handleSave_def save_def reset_def)

theorem failed_save_isNew_witness:
  "(\<exists>self' fx.
      failed_save None (Err ''conflict'') None
        \<lparr>ent_id = None, ent_rev = None, isNew = True, inserting = False,
         content = ''a'', dirtyPaths = [''name'']\<rparr> = Inr (self', fx)
      \<and> isNew self' = True \<and> last fx = PromiseError (Err ''conflict''))
   \<and> (\<exists>self' fx.
      failed_save None (Err ''conflict'') None
        \<lparr>ent_id = Some ''1'', ent_rev = Some ''1-a'', isNew = False, inserting = True,
         content = ''a'', dirtyPaths = [''name'']\<rparr> = Inr (self', fx)
      \<and> isNew self' = False \<and> last fx = PromiseError (Err ''conflict''))"
  using failed_save_isNew [of None "Err ''conflict''" None
      "\<lparr>ent_id = None, ent_rev = None, isNew = True, inserting = False,
        content = ''a'', dirtyPaths = [''name'']\<rparr>"]
    failed_save_isNew [of None "Err ''conflict''" None
      "\<lparr>ent_id = Some ''1'', ent_rev = Some ''1-a'', isNew = False, inserting = True,
        content = ''a'', dirtyPaths = [''name'']\<rparr>"]
  by simp

section \<open>Path resolver: \<^verbatim>\<open>Model._getSchema\<close>\<close>

text \<open>
  A schema type (casting rule) as \<^verbatim>\<open>_getSchema\<close> sees it (src/lib/model.js,
  lines 557-599): the constructor it is an instance of (only
  \<^verbatim>\<open>instanceof Types.Mixed\<close> is tested), its \<^verbatim>\<open>caster\<close> (present on array
  rules, itself a rule) and its embedded \<^verbatim>\<open>schema\<close> (present on arrays of
  documents). A schema is a tree, as the spec has it.
\<close>

datatype kind = Mixed | Other string

datatype schematype =
  SchemaType (label: string) (instance_of: kind) (caster: "schematype option")
    (schema: "schema option")
and schema = Schema (paths: "(string \<times> schematype) list")

text \<open>
  Modelled from the spec: \<^verbatim>\<open>Schema.prototype.path\<close> lives in ./schema, which is
  not under src/; the spec calls it a lookup in the schema's flat path table.
  \<open>None\<close> is JavaScript's \<^verbatim>\<open>undefined\<close>.
\<close>

definition path :: "schema \<Rightarrow> string \<Rightarrow> schematype option" where
  "path s p = map_of (paths s) p"

text \<open>\<^verbatim>\<open>path.split('.')\<close> and \<^verbatim>\<open>parts.join('.')\<close>.\<close>

fun split_dot :: "string \<Rightarrow> string list" where
  "split_dot [] = [[]]"
| "split_dot (c # cs) =
     (if c = CHR ''.'' then [] # split_dot cs
      else (case split_dot cs of w # ws \<Rightarrow> (c # w) # ws | [] \<Rightarrow> [[c]]))"

fun join_dot :: "string list \<Rightarrow> string" where
  "join_dot [] = []"
| "join_dot [x] = x"
| "join_dot (x # y # zs) = x @ ''.'' @ join_dot (y # zs)"

lemma size_map_of:
  "map_of ps k = Some fs \<Longrightarrow> size fs < Suc (size_list (size_prod (\<lambda>_. 0) size) ps)"
  by (induction ps) (auto split: if_splits)

lemma size_path: "path s k = Some fs \<Longrightarrow> size_option size (schema fs) < size s"
  by (cases s, cases fs) (auto simp: path_def dest!: size_map_of split: option.splits)

text \<open>
  The inner function \<^verbatim>\<open>search(parts, schema)\<close>. Its second argument is
  \<^verbatim>\<open>foundschema.schema\<close> at the recursive calls, which is \<^verbatim>\<open>undefined\<close>
  (\<open>None\<close>) for an array that embeds no schema; \<^verbatim>\<open>schema.path\<close> then raises
  a TypeError, since the loop body always runs at least once.
  \<open>search_loop p\<close> is the loop \<^verbatim>\<open>while (p--)\<close> from the body at \<open>p\<close>
  on: \<open>p\<close> runs from \<^verbatim>\<open>parts.length\<close> down to \<open>0\<close>, and falling out of the
  loop returns \<^verbatim>\<open>undefined\<close>. \<^verbatim>\<open>parts[p]\<close> out of range is \<^verbatim>\<open>undefined\<close>,
  which is not \<^verbatim>\<open>'$'\<close>.
\<close>

function search :: "string list \<Rightarrow> schema option \<Rightarrow> js_error + schematype option"
  and search_loop :: "nat \<Rightarrow> string list \<Rightarrow> schema \<Rightarrow> js_error + schematype option" where
  "search parts None = Inl TypeError"
| "search parts (Some s) = search_loop (length parts) parts s"
| "search_loop p parts s =
     (case path s (join_dot (take p parts)) of
        None \<Rightarrow> (if p = 0 then Inr None else search_loop (p - 1) parts s)
      | Some foundschema \<Rightarrow>
          (case caster foundschema of
             None \<Rightarrow> Inr (Some foundschema)
           | Some c \<Rightarrow>
               if instance_of c = Mixed then Inr (Some c)
               else if p \<noteq> length parts then
                 (if p < length parts \<and> parts ! p = ''$''
                  then search (drop (p + 1) parts) (schema foundschema)
                  else search (drop p parts) (schema foundschema))
               else Inr (Some foundschema)))"
  by pat_completeness auto
termination
  by (relation "inv_image (less_than <*lex*> less_than)
      (\<lambda>x. case x of Inl (parts, so) \<Rightarrow> (size_option size so, length parts + 2)
                   | Inr (p, parts, s) \<Rightarrow> (Suc (size s), p + 1))")
    (auto dest: size_path)

declare search_loop.simps [simp del]

text \<open>\<^verbatim>\<open>Model._getSchema(path)\<close> on the model's schema \<open>s\<close>.\<close>

definition getSchema :: "schema \<Rightarrow> string \<Rightarrow> js_error + schematype option" where
  "getSchema s p =
     (case path s p of
        Some pathschema \<Rightarrow> Inr (Some pathschema)
      | None \<Rightarrow> search (split_dot p) (Some s))"

text \<open>Example schemas: a post with comments, each with replies, each with a title.\<close>

definition title_rule :: schematype where
  "title_rule = SchemaType ''title'' (Other ''String'') None None"

definition array_of :: "string \<Rightarrow> schema \<Rightarrow> schematype" where
  "array_of f sub =
     SchemaType f (Other ''DocumentArray'')
       (Some (SchemaType f (Other ''EmbeddedDocument'') None None)) (Some sub)"

definition reply_schema :: schema where
  "reply_schema = Schema [(''title'', title_rule)]"

definition comment_schema :: schema where
  "comment_schema =
     Schema [(''body'', SchemaType ''body'' (Other ''String'') None None),
             (''replies'', array_of ''replies'' reply_schema)]"

definition post_schema :: schema where
  "post_schema = Schema [(''comments'', array_of ''comments'' comment_schema)]"

text \<open>Example schema: an array of Mixed.\<close>

definition mixed_caster :: schematype where
  "mixed_caster = SchemaType ''tags'' Mixed None None"

definition tags_rule :: schematype where
  "tags_rule = SchemaType ''tags'' (Other ''Array'') (Some mixed_caster) None"

definition tags_schema :: schema where
  "tags_schema = Schema [(''tags'', tags_rule)]"

text \<open>Arrays of documents nested to any depth, innermost a field \<^verbatim>\<open>title\<close>.\<close>

fun nested_schema :: "string list \<Rightarrow> schematype \<Rightarrow> schema" where
  "nested_schema [] leaf = Schema [(''title'', leaf)]"
| "nested_schema (f # fs) leaf = Schema [(f, array_of f (nested_schema fs leaf))]"

fun nested_path :: "string list \<Rightarrow> string" where
  "nested_path [] = ''title''"
| "nested_path (f # fs) = f @ ''.$.'' @ nested_path fs"

text \<open>
  The resolution the spec describes, to compare the code with. A path that leads
  through arrays of documents is a list of hops followed by the final segments:
  a hop is the segments of an array field's path and whether the wildcard
  \<^verbatim>\<open>$\<close> follows it. \<open>route_parts\<close> is the path as a list of segments.
\<close>

type_synonym hop = "string list \<times> bool"

fun route_parts :: "hop list \<Rightarrow> string list \<Rightarrow> string list" where
  "route_parts [] leaf = leaf"
| "route_parts ((segs, wild) # hops) leaf =
     segs @ (if wild then [''$''] else []) @ route_parts hops leaf"

text \<open>
  Following the hops through the embedded schemas: the rule that the innermost
  embedded schema holds for the final segments.
\<close>

fun resolve_route :: "schema \<Rightarrow> hop list \<Rightarrow> string list \<Rightarrow> schematype option" where
  "resolve_route s [] leaf = path s (join_dot leaf)"
| "resolve_route s ((segs, wild) # hops) leaf =
     (case path s (join_dot segs) of
        None \<Rightarrow> None
      | Some arr \<Rightarrow>
          (case schema arr of
             None \<Rightarrow> None
           | Some sub \<Rightarrow> resolve_route sub hops leaf))"

text \<open>
  What a rule that matches the whole of the remaining path resolves to: the rule,
  or its caster when it is an array of Mixed.
\<close>

definition whole_match :: "schematype \<Rightarrow> schematype" where
  "whole_match r =
     (case caster r of
        None \<Rightarrow> r
      | Some c \<Rightarrow> if instance_of c = Mixed then c else r)"

text \<open>An array rule whose caster is not Mixed and which holds an embedded schema.\<close>

definition array_with_schema :: "schematype \<Rightarrow> bool" where
  "array_with_schema arr =
     (case caster arr of
        None \<Rightarrow> False
      | Some c \<Rightarrow> instance_of c \<noteq> Mixed \<and> schema arr \<noteq> None)"

text \<open>No prefix of more than \<open>p\<close> segments, the whole path included, matches a rule.\<close>

definition no_longer_match :: "schema \<Rightarrow> nat \<Rightarrow> string list \<Rightarrow> bool" where
  "no_longer_match s p parts =
     list_all (\<lambda>q. path s (join_dot (take q parts)) = None) [Suc p..<Suc (length parts)]"

text \<open>
  First prefix match wins: at every level the hop's array field is the longest
  prefix of the remaining path that matches a rule of that level's schema, it is
  an array of documents, and a hop without wildcard is followed by a segment
  other than \<^verbatim>\<open>$\<close>; the final segments match a rule of the innermost schema.
\<close>

fun first_match :: "schema \<Rightarrow> hop list \<Rightarrow> string list \<Rightarrow> bool" where
  "first_match s [] leaf = (path s (join_dot leaf) \<noteq> None)"
| "first_match s ((segs, wild) # hops) leaf =
     (no_longer_match s (length segs) (route_parts ((segs, wild) # hops) leaf)
      \<and> (wild \<or> (route_parts hops leaf \<noteq> [] \<and> hd (route_parts hops leaf) \<noteq> ''$''))
      \<and> (case path s (join_dot segs) of
            None \<Rightarrow> False
          | Some arr \<Rightarrow>
              array_with_schema arr
              \<and> (case schema arr of
                    None \<Rightarrow> False
                  | Some sub \<Rightarrow> first_match sub hops leaf)))"

text \<open>
  Example schema: an array of documents \<^verbatim>\<open>a\<close> beside a rule for the longer
  path \<^verbatim>\<open>a.b\<close>.
\<close>

definition inner_b_rule :: schematype where
  "inner_b_rule = SchemaType ''b'' (Other ''String'') None None"

definition outer_rule :: schematype where
  "outer_rule = SchemaType ''a.b'' (Other ''Number'') None None"

definition inner_schema :: schema where
  "inner_schema = Schema [(''b'', inner_b_rule)]"

definition shadow_schema :: schema where
  "shadow_schema = Schema [(''a'', array_of ''a'' inner_schema), (''a.b'', outer_rule)]"

subsection \<open>The prefix loop\<close>

text \<open>Prefixes that match nothing are passed over.\<close>

lemma search_loop_skip:
  "p \<le> n \<Longrightarrow> (\<forall>q. p < q \<and> q \<le> n \<longrightarrow> path s (join_dot (take q parts)) = None)
     \<Longrightarrow> search_loop n parts s = search_loop p parts s"
proof (induction n)
  case 0
  then show ?case by simp
next
  case (Suc n)
  show ?case
  proof (cases "p = Suc n")
    case True
    then show ?thesis by simp
  next
    case False
    with Suc.prems have le: "p \<le> n" by simp
    from Suc.prems False have "path s (join_dot (take (Suc n) parts)) = None" by simp
    then have "search_loop (Suc n) parts s = search_loop n parts s"
      by (subst search_loop.simps) simp
    also have "\<dots> = search_loop p parts s"
      using Suc.IH [OF le] Suc.prems by simp
    finally show ?thesis .
  qed
qed

text \<open>
  One descent. When the path has no exact match and the longest prefix that
  matches a rule (\<open>p\<close> segments, fewer than the whole path) matches an array
  rule whose caster is not Mixed and which embeds a schema, resolution is the
  search of the embedded schema for the remaining segments: from \<open>p + 1\<close> on
  when segment \<open>p\<close> is the positional wildcard \<^verbatim>\<open>$\<close>, from \<open>p\<close> on
  otherwise.
\<close>

lemma getSchema_descends:
  assumes "path s pth = None"
    and "p < length (split_dot pth)"
    and "\<forall>q. p < q \<and> q \<le> length (split_dot pth)
           \<longrightarrow> path s (join_dot (take q (split_dot pth))) = None"
    and "path s (join_dot (take p (split_dot pth))) = Some arr"
    and "caster arr = Some c" and "instance_of c \<noteq> Mixed"
    and "schema arr = Some sub"
  shows "getSchema s pth =
           search (drop (if split_dot pth ! p = ''$'' then p + 1 else p) (split_dot pth))
             (Some sub)"
proof -
  let ?parts = "split_dot pth"
  have "getSchema s pth = search_loop (length ?parts) ?parts s"
    using assms(1) by (simp add: getSchema_def)
  also have "\<dots> = search_loop p ?parts s"
    using assms(2,3) by (intro search_loop_skip) auto
  also have "\<dots> = search (drop (if ?parts ! p = ''$'' then p + 1 else p) ?parts) (Some sub)"
    using assms(2,4-7) by (subst search_loop.simps) simp
  finally show ?thesis .
qed

subsection \<open>Any nesting depth\<close>

text \<open>
  For arrays of documents nested to any depth, with field names free of dots, the
  path \<^verbatim>\<open>f1.$.f2.$. ... .title\<close> resolves to the innermost \<^verbatim>\<open>title\<close> rule.
\<close>

lemma split_dot_nonempty: "split_dot cs \<noteq> []"
  by (induction cs) (auto split: list.splits)

lemma split_dot_no_dot: "CHR ''.'' \<notin> set f \<Longrightarrow> split_dot (f @ CHR ''.'' # rest) = f # split_dot rest"
  by (induction f) (auto split: list.splits)

lemma join_dot_Cons: "ws \<noteq> [] \<Longrightarrow> join_dot (f # ws) = f @ CHR ''.'' # join_dot ws"
  by (cases ws) auto

lemma search_nested:
  "\<forall>f\<in>set fs. CHR ''.'' \<notin> set f \<Longrightarrow> caster leaf = None
     \<Longrightarrow> search (split_dot (nested_path fs)) (Some (nested_schema fs leaf)) = Inr (Some leaf)"
proof (induction fs)
  case Nil
  then show ?case by (simp add: search_loop.simps path_def)
next
  case (Cons f fs)
  let ?s = "nested_schema (f # fs) leaf"
  let ?rest = "split_dot (nested_path fs)"
  let ?parts = "f # ''$'' # ?rest"
  from Cons.prems have nodot: "CHR ''.'' \<notin> set f" by simp
  have parts: "split_dot (nested_path (f # fs)) = ?parts"
    using split_dot_no_dot [OF nodot, of "''$.'' @ nested_path fs"]
      split_dot_no_dot [of "''$''" "nested_path fs"] by simp
  have none: "\<forall>q. 1 < q \<and> q \<le> length ?parts \<longrightarrow> path ?s (join_dot (take q ?parts)) = None"
  proof (intro allI impI)
    fix q assume q: "1 < q \<and> q \<le> length ?parts"
    then obtain r where r: "q = Suc (Suc r)" by (cases q; cases "q - 1") auto
    have "join_dot (take q ?parts) = f @ CHR ''.'' # join_dot (take (Suc r) (''$'' # ?rest))"
      using r by (simp add: join_dot_Cons)
    then show "path ?s (join_dot (take q ?parts)) = None"
      by (simp add: path_def)
  qed
  have "search ?parts (Some ?s) = search_loop (length ?parts) ?parts ?s" by simp
  also have "\<dots> = search_loop 1 ?parts ?s"
    using none by (intro search_loop_skip) auto
  also have "\<dots> = search ?rest (Some (nested_schema fs leaf))"
    by (subst search_loop.simps) (simp add: path_def array_of_def)
  also have "\<dots> = Inr (Some leaf)"
    using Cons by simp
  finally show ?case using parts by simp
qed

lemma getSchema_nested:
  assumes "\<forall>f\<in>set fs. CHR ''.'' \<notin> set f" and "caster leaf = None"
  shows "getSchema (nested_schema fs leaf) (nested_path fs) = Inr (Some leaf)"
proof (cases "path (nested_schema fs leaf) (nested_path fs)")
  case None
  then show ?thesis using search_nested [OF assms] by (simp add: getSchema_def)
next
  case (Some r)
  then show ?thesis
    by (cases fs) (auto simp: getSchema_def path_def split: if_splits)
qed

subsection \<open>Routes through nested arrays\<close>

lemma no_longer_match_iff:
  "no_longer_match s p parts
     \<longleftrightarrow> (\<forall>q. p < q \<and> q \<le> length parts \<longrightarrow> path s (join_dot (take q parts)) = None)"
proof -
  have "set [Suc p..<Suc (length parts)] = {q. p < q \<and> q \<le> length parts}" by auto
  then show ?thesis by (simp add: no_longer_match_def list_all_iff)
qed

lemma search_whole:
  "path s (join_dot parts) = Some r \<Longrightarrow> search parts (Some s) = Inr (Some (whole_match r))"
  by (simp add: search_loop.simps [of "length parts"] whole_match_def split: option.splits)

text \<open>The search of a schema along a route ends at the rule the route leads to.\<close>

lemma search_follows_route:
  "first_match s hops leaf \<Longrightarrow>
     \<exists>r. resolve_route s hops leaf = Some r
       \<and> search (route_parts hops leaf) (Some s) = Inr (Some (whole_match r))"
proof (induction hops arbitrary: s)
  case Nil
  then obtain r where r: "path s (join_dot leaf) = Some r" by auto
  from search_whole [OF r] r show ?case by simp
next
  case (Cons hop hops)
  obtain segs wild where hop: "hop = (segs, wild)" by (cases hop)
  let ?rest = "route_parts hops leaf"
  let ?parts = "route_parts (hop # hops) leaf"
  let ?p = "length segs"
  from Cons.prems hop obtain arr c sub where
    clear: "no_longer_match s ?p ?parts"
    and next_seg: "wild \<or> (?rest \<noteq> [] \<and> hd ?rest \<noteq> ''$'')"
    and arr: "path s (join_dot segs) = Some arr"
    and c: "caster arr = Some c" "instance_of c \<noteq> Mixed"
    and sub: "schema arr = Some sub"
    and inner: "first_match sub hops leaf"
    by (auto simp: array_with_schema_def split: option.splits)
  have short: "?p < length ?parts"
    using next_seg by (auto simp: hop)
  have tk: "take ?p ?parts = segs" by (simp add: hop)
  have tail: "(if ?p < length ?parts \<and> ?parts ! ?p = ''$''
               then search (drop (?p + 1) ?parts) (Some sub)
               else search (drop ?p ?parts) (Some sub)) = search ?rest (Some sub)"
  proof (cases wild)
    case True
    then show ?thesis by (simp add: hop del: search.simps)
  next
    case False
    with next_seg have "?rest \<noteq> []" "hd ?rest \<noteq> ''$''" by simp_all
    with False show ?thesis
      by (simp add: hop nth_append hd_conv_nth del: search.simps)
  qed
  have "search ?parts (Some s) = search_loop (length ?parts) ?parts s" by simp
  also have "\<dots> = search_loop ?p ?parts s"
    using short clear by (intro search_loop_skip) (auto simp: no_longer_match_iff)
  also have "\<dots> = (if ?p < length ?parts \<and> ?parts ! ?p = ''$''
                       then search (drop (?p + 1) ?parts) (Some sub)
                       else search (drop ?p ?parts) (Some sub))"
    using short by (subst search_loop.simps) (simp add: tk arr c sub del: search.simps)
  also note tail
  finally have "search ?parts (Some s) = search ?rest (Some sub)" .
  moreover from Cons.IH [OF inner] obtain r where
    "resolve_route sub hops leaf = Some r"
    "search ?rest (Some sub) = Inr (Some (whole_match r))" by blast
  ultimately show ?case
    using arr sub by (auto simp: hop)
qed

lemma join_dot_Cons_char: "join_dot ((c # w) # ws) = c # join_dot (w # ws)"
  by (cases ws) auto

lemma join_split_dot: "join_dot (split_dot cs) = cs"
proof (induction cs)
  case Nil
  then show ?case by simp
next
  case (Cons c cs)
  show ?case
  proof (cases "c = CHR ''.''")
    case True
    with Cons show ?thesis
      by (cases "split_dot cs") (auto simp: split_dot_nonempty)
  next
    case False
    with Cons show ?thesis
      by (cases "split_dot cs") (auto simp: split_dot_nonempty join_dot_Cons_char)
  qed
qed

text \<open>
  C2, as the code has it. The first prefix match wins, so the descent into an
  array's embedded schema happens when no longer prefix of the path (the whole
  path included) matches a rule. Under that condition at every level, a path
  through arrays of documents nested to any depth, each array field followed by
  the wildcard \<^verbatim>\<open>$\<close> (skipped) or directly by the next segment, resolves to
  what the innermost embedded schema holds for the final segments.
\<close>

theorem getSchema_follows_route:
  assumes "split_dot pth = route_parts (hop # hops) leaf"
    and "first_match s (hop # hops) leaf"
  shows "\<exists>r. resolve_route s (hop # hops) leaf = Some r
           \<and> getSchema s pth = Inr (Some (whole_match r))"
proof -
  obtain segs wild where hop: "hop = (segs, wild)" by (cases hop)
  let ?parts = "route_parts (hop # hops) leaf"
  from assms(2) have clear: "no_longer_match s (length segs) ?parts"
    and next_seg: "wild \<or> (route_parts hops leaf \<noteq> [] \<and> hd (route_parts hops leaf) \<noteq> ''$'')"
    by (auto simp: hop)
  from next_seg have "length segs < length ?parts" by (auto simp: hop)
  with clear have "path s (join_dot (take (length ?parts) ?parts)) = None"
    by (auto simp: no_longer_match_iff)
  then have "path s pth = None"
    using assms(1) join_split_dot [of pth] by simp
  then have "getSchema s pth = search ?parts (Some s)"
    using assms(1) by (simp add: getSchema_def)
  with search_follows_route [OF assms(2)] show ?thesis by simp
qed

text \<open>
  The example of the spec, \<^verbatim>\<open>comments.$.replies.$.title\<close>, and the same path
  without wildcards: both resolve to the title rule of the reply schema. One
  level down, \<^verbatim>\<open>comments.$.body\<close> resolves to the body rule of the comment
  schema.
\<close>

theorem getSchema_follows_route_witness:
  "getSchema post_schema ''comments.$.replies.$.title'' = Inr (Some title_rule)
   \<and> getSchema post_schema ''comments.replies.title'' = Inr (Some title_rule)
   \<and> getSchema post_schema ''comments.$.body''
       = Inr (Some (SchemaType ''body'' (Other ''String'') None None))"
proof -
  have p1: "split_dot ''comments.$.replies.$.title''
      = route_parts [([''comments''], True), ([''replies''], True)] [''title'']" by simp
  have f1: "first_match post_schema [([''comments''], True), ([''replies''], True)] [''title'']"
    by code_simp
  have p2: "split_dot ''comments.replies.title''
      = route_parts [([''comments''], False), ([''replies''], False)] [''title'']" by simp
  have f2: "first_match post_schema [([''comments''], False), ([''replies''], False)] [''title'']"
    by code_simp
  have r1: "resolve_route post_schema [([''comments''], True), ([''replies''], True)] [''title'']
      = Some title_rule" by code_simp
  have r2: "resolve_route post_schema [([''comments''], False), ([''replies''], False)] [''title'']
      = Some title_rule" by code_simp
  have w: "whole_match title_rule = title_rule" by code_simp
  have p3: "split_dot ''comments.$.body'' = route_parts [([''comments''], True)] [''body'']"
    by simp
  have f3: "first_match post_schema [([''comments''], True)] [''body'']"
    by code_simp
  have r3: "resolve_route post_schema [([''comments''], True)] [''body'']
      = Some (SchemaType ''body'' (Other ''String'') None None)" by code_simp
  have w3: "whole_match (SchemaType ''body'' (Other ''String'') None None)
      = SchemaType ''body'' (Other ''String'') None None" by code_simp
  from getSchema_follows_route [OF p1 f1, unfolded r1]
    getSchema_follows_route [OF p2 f2, unfolded r2]
    getSchema_follows_route [OF p3 f3, unfolded r3]
  show ?thesis by (simp add: w w3)
qed

text \<open>
  Without that condition the descent does not happen: the prefix \<^verbatim>\<open>a\<close> of
  \<^verbatim>\<open>a.b.c\<close> matches an array of documents and stops short of the path, but
  the longer prefix \<^verbatim>\<open>a.b\<close> matches first and its rule is the result, not the
  rule that the search of the embedded schema gives.
\<close>

theorem getSchema_longer_prefix_wins:
  "path shadow_schema (join_dot (take 1 (split_dot ''a.b.c''))) = Some (array_of ''a'' inner_schema)
   \<and> schema (array_of ''a'' inner_schema) = Some inner_schema
   \<and> search (drop 1 (split_dot ''a.b.c'')) (Some inner_schema) = Inr (Some inner_b_rule)
   \<and> getSchema shadow_schema ''a.b.c'' = Inr (Some outer_rule)
   \<and> outer_rule \<noteq> inner_b_rule"
  by (simp add: getSchema_def path_def shadow_schema_def inner_schema_def array_of_def
      outer_rule_def inner_b_rule_def search_loop.simps)

subsection \<open>Arrays of Mixed\<close>

text \<open>
  C7, as the code has it. When the path has no exact match and the longest prefix
  that matches a rule matches an array rule whose caster is Mixed, resolution
  returns that caster (\<^verbatim>\<open>return foundschema.caster\<close>), with no descent into the
  remaining segments.
\<close>

theorem getSchema_mixed_caster:
  assumes "path s pth = None"
    and "p \<le> length (split_dot pth)"
    and "\<forall>q. p < q \<and> q \<le> length (split_dot pth)
           \<longrightarrow> path s (join_dot (take q (split_dot pth))) = None"
    and "path s (join_dot (take p (split_dot pth))) = Some arr"
    and "caster arr = Some c" and "instance_of c = Mixed"
  shows "getSchema s pth = Inr (Some c)"
proof -
  let ?parts = "split_dot pth"
  have "getSchema s pth = search_loop (length ?parts) ?parts s"
    using assms(1) by (simp add: getSchema_def)
  also have "\<dots> = search_loop p ?parts s"
    using assms(2,3) by (intro search_loop_skip) auto
  also have "\<dots> = Inr (Some c)"
    using assms(4-6) by (subst search_loop.simps) simp
  finally show ?thesis .
qed

theorem getSchema_mixed_caster_witness:
  "getSchema tags_schema ''tags.$.name'' = Inr (Some mixed_caster)"
proof -
  let ?pth = "''tags.$.name''"
  have h1: "path tags_schema ?pth = None"
    by (simp add: path_def tags_schema_def)
  have h2: "1 \<le> length (split_dot ?pth)" by simp
  have h3: "\<forall>q. 1 < q \<and> q \<le> length (split_dot ?pth)
              \<longrightarrow> path tags_schema (join_dot (take q (split_dot ?pth))) = None"
  proof (intro allI impI)
    fix q assume "1 < q \<and> q \<le> length (split_dot ?pth)"
    then have "q = 2 \<or> q = 3" by auto
    then show "path tags_schema (join_dot (take q (split_dot ?pth))) = None"
      by (auto simp: path_def tags_schema_def eval_nat_numeral)
  qed
  have h4: "path tags_schema (join_dot (take 1 (split_dot ?pth))) = Some tags_rule"
    by (simp add: path_def tags_schema_def)
  have h5: "caster tags_rule = Some mixed_caster" by (simp add: tags_rule_def)
  have h6: "instance_of mixed_caster = Mixed" by (simp add: mixed_caster_def)
  show ?thesis
    using getSchema_mixed_caster [OF h1 h2 h3 h4 h5 h6] .
qed

text \<open>
  The result is the Mixed caster, not the array rule that holds it: the prefix
  \<^verbatim>\<open>tags\<close> of \<^verbatim>\<open>tags.$.name\<close> matches an array of Mixed, and the array rule
  is not what is returned.
\<close>

theorem getSchema_mixed_not_array_rule:
  "path tags_schema ''tags'' = Some tags_rule
   \<and> caster tags_rule = Some mixed_caster \<and> instance_of mixed_caster = Mixed
   \<and> getSchema tags_schema ''tags.$.name'' \<noteq> Inr (Some tags_rule)"
  by (simp add: getSchema_def path_def tags_schema_def tags_rule_def mixed_caster_def
      search_loop.simps)

section \<open>Removal: \<^verbatim>\<open>Model.prototype.remove\<close>\<close>

text \<open>How a removal ended, as the attached callbacks are told.\<close>

datatype outcome = Failed err | Completed

text \<open>
  Modelled from the spec: \<^verbatim>\<open>Promise\<close> lives in ./promise, which is not under
  src/. The spec describes it as one result per operation with a list of
  attached waiters: \<^verbatim>\<open>new Promise(fn)\<close> and \<^verbatim>\<open>addBack(fn)\<close> attach a
  callback (none when \<^verbatim>\<open>fn\<close> is absent), and on completion all attached
  callbacks are called in registration order with the one outcome. What a
  settled promise does with a callback attached later is not described and not
  modelled.
\<close>

record 'c promise =
  listeners :: "'c list"
  settled :: "outcome option"

definition attached :: "'c option \<Rightarrow> 'c list" where
  "attached fn = (case fn of None \<Rightarrow> [] | Some f \<Rightarrow> [f])"

definition new_promise :: "'c option \<Rightarrow> 'c promise" where
  "new_promise fn = \<lparr>listeners = attached fn, settled = None\<rparr>"

definition addBack :: "'c option \<Rightarrow> 'c promise \<Rightarrow> 'c promise" where
  "addBack fn p = p\<lparr>listeners := listeners p @ attached fn\<rparr>"

text \<open>
  The document as \<^verbatim>\<open>remove\<close> sees it (src/lib/model.js, lines 170-191):
  \<^verbatim>\<open>_id\<close>, \<^verbatim>\<open>_rev\<close> and \<^verbatim>\<open>$__.removing\<close>, which is falsy (\<open>None\<close>) or
  refers to a promise object. Promise objects live in a store, indexed by
  allocation order, because the document and the backend callback's closure
  both hold a reference to the same one.
\<close>

record 'c removal_state =
  the_id :: "string option"
  the_rev :: "string option"
  removing :: "nat option"
  promises :: "'c promise list"

text \<open>
  What \<^verbatim>\<open>remove\<close> and its backend callback do beyond changing the state:
  the backend call \<^verbatim>\<open>collection.remove(_id, _rev, callback)\<close> (with the promise
  its callback closes over), the \<^verbatim>\<open>remove\<close> event, and the calls of attached
  callbacks.
\<close>

datatype 'c remove_effect =
    BackendRemove "string option" "string option" nat
  | EmitRemove
  | Call 'c outcome

text \<open>\<^verbatim>\<open>promise.error(err)\<close> and \<^verbatim>\<open>promise.complete()\<close>.\<close>

definition resolve :: "outcome \<Rightarrow> 'c promise \<Rightarrow> 'c promise \<times> 'c remove_effect list" where
  "resolve out p = (p\<lparr>settled := Some out\<rparr>, map (\<lambda>f. Call f out) (listeners p))"

text \<open>\<^verbatim>\<open>Model.prototype.remove(fn)\<close>.\<close>

definition remove :: "'c option \<Rightarrow> 'c removal_state \<Rightarrow> 'c removal_state \<times> 'c remove_effect list" where
  "remove fn self =
     (case removing self of
        Some p \<Rightarrow> (self\<lparr>promises := (promises self)[p := addBack fn (promises self ! p)]\<rparr>, [])
      | None \<Rightarrow>
          (let p = length (promises self) in
           (self\<lparr>removing := Some p, promises := promises self @ [new_promise fn]\<rparr>,
            [BackendRemove (the_id self) (the_rev self) p])))"

text \<open>
  The callback handed to \<^verbatim>\<open>collection.remove\<close>, closed over the promise \<open>p\<close>.
  On an error the chain \<^verbatim>\<open>promise = self = self.$__.removing = ... = null\<close>
  clears the marker; the chain on success does not name
  \<^verbatim>\<open>self.$__.removing\<close>.
\<close>

definition remove_callback ::
  "nat \<Rightarrow> err option \<Rightarrow> 'c removal_state \<Rightarrow> 'c removal_state \<times> 'c remove_effect list" where
  "remove_callback p er self =
     (case er of
        Some e \<Rightarrow>
          (let (pr, fx) = resolve (Failed e) (promises self ! p) in
           (self\<lparr>promises := (promises self)[p := pr], removing := None\<rparr>, fx))
      | None \<Rightarrow>
          (let (pr, fx) = resolve Completed (promises self ! p) in
           (self\<lparr>promises := (promises self)[p := pr]\<rparr>, EmitRemove # fx)))"

definition outcome_of :: "err option \<Rightarrow> outcome" where
  "outcome_of er = (case er of Some e \<Rightarrow> Failed e | None \<Rightarrow> Completed)"

definition calls :: "'c remove_effect list \<Rightarrow> ('c \<times> outcome) list" where
  "calls fx = concat (map (\<lambda>x. case x of Call f out \<Rightarrow> [(f, out)] | _ \<Rightarrow> []) fx)"

definition backend_calls :: "'c remove_effect list \<Rightarrow> nat" where
  "backend_calls fx = length (filter (\<lambda>x. case x of BackendRemove _ _ _ \<Rightarrow> True | _ \<Rightarrow> False) fx)"

definition fresh_doc :: "string removal_state" where
  "fresh_doc = \<lparr>the_id = Some ''doc1'', the_rev = Some ''1-abc'', removing = None, promises = []\<rparr>"

subsection \<open>Reading the effects\<close>

lemma calls_simps:
  "calls [] = []"
  "calls (xs @ ys) = calls xs @ calls ys"
  "calls (BackendRemove i r p # xs) = calls xs"
  "calls (EmitRemove # xs) = calls xs"
  "calls (Call f out # xs) = (f, out) # calls xs"
  by (simp_all add: calls_def)

lemma calls_map_Call: "calls (map (\<lambda>f. Call f out) fs) = map (\<lambda>f. (f, out)) fs"
  by (induction fs) (simp_all add: calls_simps)

lemma backend_calls_simps:
  "backend_calls [] = 0"
  "backend_calls (xs @ ys) = backend_calls xs + backend_calls ys"
  "backend_calls (BackendRemove i r p # xs) = Suc (backend_calls xs)"
  "backend_calls (EmitRemove # xs) = backend_calls xs"
  "backend_calls (Call f out # xs) = backend_calls xs"
  by (simp_all add: backend_calls_def)

lemma backend_calls_map_Call: "backend_calls (map (\<lambda>f. Call f out) fs) = 0"
  by (induction fs) (simp_all add: backend_calls_simps)

lemma remove_idle:
  "removing self = None \<Longrightarrow>
     remove fn self =
       (self\<lparr>removing := Some (length (promises self)),
              promises := promises self @ [new_promise fn]\<rparr>,
        [BackendRemove (the_id self) (the_rev self) (length (promises self))])"
  by (simp add: remove_def Let_def)

lemma remove_pending:
  "removing self = Some p \<Longrightarrow>
     remove fn self =
       (self\<lparr>promises := (promises self)[p := addBack fn (promises self ! p)]\<rparr>, [])"
  by (simp add: remove_def)

lemma remove_callback_effects:
  "snd (remove_callback p er self) =
     (case er of Some e \<Rightarrow> [] | None \<Rightarrow> [EmitRemove])
       @ map (\<lambda>f. Call f (outcome_of er)) (listeners (promises self ! p))"
  by (cases er) (simp_all add: remove_callback_def resolve_def outcome_of_def)

lemma remove_callback_marker:
  "removing (fst (remove_callback p er self)) =
     (case er of Some e \<Rightarrow> None | None \<Rightarrow> removing self)"
  by (cases er) (simp_all add: remove_callback_def resolve_def)

text \<open>
  C8. Starting with no removal in flight, two \<^verbatim>\<open>remove\<close> requests issued before
  the backend answers make exactly one backend call: the first allocates the
  promise and calls the backend, the second issues nothing and attaches its
  callback to the same promise. When the backend answers, every attached
  callback is called, in registration order, with the same outcome.
\<close>

theorem remove_twice_one_backend_call:
  assumes "removing self = None"
    and "remove fn1 self = (self1, fx1)"
    and "remove fn2 self1 = (self2, fx2)"
    and "remove_callback (length (promises self)) er self2 = (self3, fx3)"
  shows "fx1 = [BackendRemove (the_id self) (the_rev self) (length (promises self))]
       \<and> removing self1 = Some (length (promises self))
       \<and> fx2 = []
       \<and> removing self2 = Some (length (promises self))
       \<and> listeners (promises self2 ! length (promises self)) = attached fn1 @ attached fn2
       \<and> backend_calls (fx1 @ fx2 @ fx3) = 1
       \<and> calls (fx1 @ fx2 @ fx3) = map (\<lambda>f. (f, outcome_of er)) (attached fn1 @ attached fn2)"
proof -
  let ?p = "length (promises self)"
  from assms(1,2) have s1: "self1 = self\<lparr>removing := Some ?p, promises := promises self @ [new_promise fn1]\<rparr>"
    and fx1: "fx1 = [BackendRemove (the_id self) (the_rev self) ?p]"
    by (simp_all add: remove_idle)
  have pend: "removing self1 = Some ?p" by (simp add: s1)
  from assms(3) have s2: "self2 = self1\<lparr>promises := (promises self1)[?p := addBack fn2 (promises self1 ! ?p)]\<rparr>"
    and fx2: "fx2 = []"
    by (simp_all add: remove_pending [OF pend])
  have ls: "listeners (promises self2 ! ?p) = attached fn1 @ attached fn2"
    by (simp add: s2 s1 addBack_def new_promise_def)
  have fx3: "fx3 = (case er of Some e \<Rightarrow> [] | None \<Rightarrow> [EmitRemove])
                @ map (\<lambda>f. Call f (outcome_of er)) (attached fn1 @ attached fn2)"
    using remove_callback_effects [of ?p er self2] assms(4) ls by simp
  have n: "backend_calls (fx1 @ fx2 @ fx3) = 1"
    unfolding fx1 fx2 fx3
    by (cases er) (simp_all add: backend_calls_simps backend_calls_map_Call del: map_append)
  have c: "calls (fx1 @ fx2 @ fx3) = map (\<lambda>f. (f, outcome_of er)) (attached fn1 @ attached fn2)"
    unfolding fx1 fx2 fx3
    by (cases er) (simp_all add: calls_simps calls_map_Call del: map_append)
  show ?thesis
    using fx1 pend fx2 ls n c by (simp add: s2)
qed

theorem remove_twice_one_backend_call_witness:
  "backend_calls
     (snd (remove (Some ''first'') fresh_doc)
      @ snd (remove (Some ''second'') (fst (remove (Some ''first'') fresh_doc)))
      @ snd (remove_callback 0 None
               (fst (remove (Some ''second'') (fst (remove (Some ''first'') fresh_doc)))))) = 1
   \<and> calls
     (snd (remove (Some ''first'') fresh_doc)
      @ snd (remove (Some ''second'') (fst (remove (Some ''first'') fresh_doc)))
      @ snd (remove_callback 0 None
               (fst (remove (Some ''second'') (fst (remove (Some ''first'') fresh_doc))))))
     = [(''first'', Completed), (''second'', Completed)]"
proof -
  have h1: "removing fresh_doc = None" by (simp add: fresh_doc_def)
  have len: "length (promises fresh_doc) = 0" by (simp add: fresh_doc_def)
  note t = remove_twice_one_backend_call [OF h1 surjective_pairing surjective_pairing
      surjective_pairing, of "Some ''first''" "Some ''second''" None]
  have r: "map (\<lambda>f. (f, outcome_of None)) (attached (Some ''first'') @ attached (Some ''second''))
             = [(''first'', Completed), (''second'', Completed)]"
    by (simp add: outcome_of_def attached_def)
  from t [unfolded len r] show ?thesis by blast
qed

text \<open>
  C9, as the code has it. After the backend call of a removal fails, the marker
  \<^verbatim>\<open>$__.removing\<close> is cleared and the next \<^verbatim>\<open>remove\<close> issues a new backend
  call. After it succeeds the marker still refers to the finished promise, and
  the next \<^verbatim>\<open>remove\<close> attaches to it and issues no backend call.
\<close>

theorem remove_marker_after_settle:
  assumes "removing self = None"
    and "remove fn self = (self1, fx1)"
  shows "removing (fst (remove_callback (length (promises self)) (Some e) self1)) = None
       \<and> backend_calls (snd (remove fn2 (fst (remove_callback (length (promises self)) (Some e) self1)))) = 1
       \<and> removing (fst (remove_callback (length (promises self)) None self1)) = Some (length (promises self))
       \<and> backend_calls (snd (remove fn2 (fst (remove_callback (length (promises self)) None self1)))) = 0"
proof -
  let ?p = "length (promises self)"
  from assms have pend: "removing self1 = Some ?p" by (auto simp: remove_idle)
  have f: "removing (fst (remove_callback ?p (Some e) self1)) = None"
    by (simp add: remove_callback_marker)
  have s: "removing (fst (remove_callback ?p None self1)) = Some ?p"
    by (simp add: remove_callback_marker pend)
  show ?thesis
    using f s by (simp add: remove_idle [OF f] remove_pending [OF s] backend_calls_simps)
qed

theorem remove_marker_after_settle_witness:
  "removing (fst (remove_callback 0 (Some (Err ''conflict'')) (fst (remove (Some ''first'') fresh_doc)))) = None
   \<and> backend_calls (snd (remove (Some ''again'')
        (fst (remove_callback 0 (Some (Err ''conflict'')) (fst (remove (Some ''first'') fresh_doc)))))) = 1
   \<and> removing (fst (remove_callback 0 None (fst (remove (Some ''first'') fresh_doc)))) = Some 0
   \<and> backend_calls (snd (remove (Some ''again'')
        (fst (remove_callback 0 None (fst (remove (Some ''first'') fresh_doc)))))) = 0"
proof -
  have h1: "removing fresh_doc = None" by (simp add: fresh_doc_def)
  have len: "length (promises fresh_doc) = 0" by (simp add: fresh_doc_def)
  from remove_marker_after_settle [OF h1 surjective_pairing, of "Err ''conflict''" "Some ''first''"
      "Some ''again''", unfolded len]
  show ?thesis by blast
qed

text \<open>
  The marker is not cleared on success: after a successful removal of a document
  a further \<^verbatim>\<open>remove\<close> finds the marker set and calls no backend.
\<close>

theorem remove_marker_kept_on_success:
  "removing (fst (remove_callback 0 None (fst (remove (Some ''first'') fresh_doc)))) \<noteq> None
   \<and> snd (remove (Some ''again'')
        (fst (remove_callback 0 None (fst (remove (Some ''first'') fresh_doc))))) = []"
  by (simp add: fresh_doc_def remove_def remove_callback_def resolve_def new_promise_def
      attached_def addBack_def)

section \<open>Index sequencer: \<^verbatim>\<open>Model.ensureIndexes\<close>\<close>

text \<open>
  An index spec is the pair \<^verbatim>\<open>[keys, options]\<close> that \<^verbatim>\<open>schema.indexes()\<close>
  returns; \<^verbatim>\<open>create\<close> writes the schema's \<^verbatim>\<open>safe\<close> option into
  \<^verbatim>\<open>options.safe\<close> before the backend call.
\<close>

record 'o index_options =
  declared :: 'o
  opt_safe :: "string option"

text \<open>
  What \<^verbatim>\<open>ensureIndexes\<close> does, in order: a backend call
  \<^verbatim>\<open>collection.ensureIndex(keys, options, callback)\<close>, the backend's answer
  (its call of that callback, with an error or without), the \<^verbatim>\<open>index\<close>
  event, the call of the caller's \<^verbatim>\<open>cb\<close>, and \<^verbatim>\<open>process.nextTick(cb)\<close>.
\<close>

datatype ('k, 'o, 'c) index_event =
    EnsureIndex 'k "'o index_options"
  | Ack "err option"
  | EmitIndex "err option"
  | Callback 'c "err option"
  | NextTick 'c

text \<open>The inner function \<^verbatim>\<open>done(err)\<close>; \<^verbatim>\<open>cb\<close> is optional.\<close>

definition index_done :: "'c option \<Rightarrow> err option \<Rightarrow> ('k, 'o, 'c) index_event list" where
  "index_done cb er = EmitIndex er # (case cb of None \<Rightarrow> [] | Some c \<Rightarrow> [Callback c er])"

text \<open>
  The inner function \<^verbatim>\<open>create()\<close> on the remaining specs. The backend is an
  external collaborator: \<open>acks\<close> lists its answers in call order, and a call
  beyond the list is never answered, so nothing follows it.
\<close>

fun create ::
  "string option \<Rightarrow> 'c option \<Rightarrow> ('k \<times> 'o index_options) list \<Rightarrow> err option list
     \<Rightarrow> ('k, 'o, 'c) index_event list" where
  "create safe cb [] acks = index_done cb None"
| "create safe cb ((keys, options) # indexes) acks =
     EnsureIndex keys (options\<lparr>opt_safe := safe\<rparr>) #
       (case acks of
          [] \<Rightarrow> []
        | a # acks' \<Rightarrow>
            Ack a #
              (case a of
                 Some e \<Rightarrow> index_done cb (Some e)
               | None \<Rightarrow> create safe cb indexes acks'))"

definition ensureIndexes ::
  "string option \<Rightarrow> 'c option \<Rightarrow> ('k \<times> 'o index_options) list \<Rightarrow> err option list
     \<Rightarrow> ('k, 'o, 'c) index_event list" where
  "ensureIndexes safe cb indexes acks =
     (if indexes = [] then (case cb of None \<Rightarrow> [] | Some c \<Rightarrow> [NextTick c])
      else create safe cb indexes acks)"

text \<open>The call for one spec followed by its answer.\<close>

definition round_trip ::
  "string option \<Rightarrow> err option \<Rightarrow> 'k \<times> 'o index_options \<Rightarrow> ('k, 'o, 'c) index_event list" where
  "round_trip safe a index = [EnsureIndex (fst index) ((snd index)\<lparr>opt_safe := safe\<rparr>), Ack a]"

definition three_specs :: "(string \<times> unit index_options) list" where
  "three_specs =
     [(''email'', \<lparr>declared = (), opt_safe = None\<rparr>),
      (''slug'', \<lparr>declared = (), opt_safe = None\<rparr>),
      (''apiKey'', \<lparr>declared = (), opt_safe = None\<rparr>)]"

subsection \<open>The trace of a run\<close>

lemma create_first_failure:
  "k < length indexes \<Longrightarrow>
     create safe cb indexes (replicate k None @ Some e # later) =
       concat (map (round_trip safe None) (take k indexes))
         @ round_trip safe (Some e) (indexes ! k) @ index_done cb (Some e)"
proof (induction k arbitrary: indexes)
  case 0
  then show ?case by (cases indexes) (auto simp: round_trip_def)
next
  case (Suc k)
  then obtain i rest where ix: "indexes = i # rest" by (cases indexes) auto
  with Suc.prems have "k < length rest" by simp
  from Suc.IH [OF this] show ?case
    by (cases i) (simp add: ix round_trip_def)
qed

text \<open>When every call is answered without error, every spec is issued, in order.\<close>

lemma create_all_succeed:
  "create safe cb indexes (replicate (length indexes) None @ later) =
     concat (map (round_trip safe None) indexes) @ index_done cb None"
  by (induction indexes) (auto simp: round_trip_def)

text \<open>
  C4. When the backend answers the first \<open>k\<close> calls without error and call
  \<open>k\<close> with the error \<open>e\<close>, the run is: for each of the first \<open>k\<close> specs
  its call followed by its answer, then the call for spec \<open>k\<close> and its answer,
  then the \<^verbatim>\<open>index\<close> event with \<open>e\<close> and the caller's handler with \<open>e\<close>.
  Every call but the first follows the answer to the one before, and no spec
  after spec \<open>k\<close> is issued.
\<close>

theorem ensureIndexes_first_failure:
  assumes "k < length indexes"
  shows "ensureIndexes safe cb indexes (replicate k None @ Some e # later) =
           concat (map (round_trip safe None) (take k indexes))
             @ round_trip safe (Some e) (indexes ! k)
             @ EmitIndex (Some e) # (case cb of None \<Rightarrow> [] | Some c \<Rightarrow> [Callback c (Some e)])"
proof -
  from assms have "indexes \<noteq> []" by auto
  then show ?thesis
    using create_first_failure [OF assms, of safe cb e later]
    by (simp add: ensureIndexes_def index_done_def)
qed

text \<open>Three specs, the second fails: the third is never issued.\<close>

theorem ensureIndexes_first_failure_witness:
  "ensureIndexes (Some ''true'') (Some ''cb'') three_specs [None, Some (Err ''second''), None] =
     [EnsureIndex ''email'' \<lparr>declared = (), opt_safe = Some ''true''\<rparr>, Ack None,
      EnsureIndex ''slug'' \<lparr>declared = (), opt_safe = Some ''true''\<rparr>, Ack (Some (Err ''second'')),
      EmitIndex (Some (Err ''second'')), Callback ''cb'' (Some (Err ''second''))]"
proof -
  have h: "1 < length three_specs" by (simp add: three_specs_def)
  from ensureIndexes_first_failure [OF h, of "Some ''true''" "Some ''cb''" "Err ''second''" "[None]"]
  show ?thesis by (simp add: three_specs_def round_trip_def)
qed

section \<open>Hydrator: \<^verbatim>\<open>Model.hydrate\<close> and \<^verbatim>\<open>hydrate\<close>\<close>

text \<open>
  The argument \<^verbatim>\<open>docs\<close> is one raw record or an array of them
  (\<^verbatim>\<open>Array.isArray(docs)\<close>); the value passed to the callback is one entity, an
  array of entities, or \<^verbatim>\<open>undefined\<close> (\<^verbatim>\<open>arr[0]\<close> of an empty array).
\<close>

datatype 'r docs = Single 'r | Many "'r list"

datatype 'e hydrated = One 'e | Seq "'e list" | Undefined

text \<open>
  One call of the caller's callback: \<^verbatim>\<open>callback(err, null)\<close> is
  \<open>(Some err, None)\<close>, \<^verbatim>\<open>callback(null, result)\<close> is \<open>(None, Some result)\<close>.
\<close>

type_synonym 'e callback_call = "err option \<times> 'e hydrated option"

text \<open>
  The loop of both functions. \<^verbatim>\<open>Document\<close> is not under src/, so the
  constructor and \<^verbatim>\<open>init\<close> are a parameter: \<open>init d\<close> is the entity
  \<^verbatim>\<open>new self(d, true)\<close> as \<^verbatim>\<open>init(d, fn)\<close> leaves it, with the error that
  \<^verbatim>\<open>init\<close> passes to \<^verbatim>\<open>fn\<close> (\<open>None\<close> when it passes none); \<^verbatim>\<open>init\<close> calls
  \<^verbatim>\<open>fn\<close> once, before it returns. On an error \<^verbatim>\<open>fn\<close> calls the callback
  and returns to \<^verbatim>\<open>init\<close>; the loop goes on. Without an error \<^verbatim>\<open>fn\<close>
  evaluates \<^verbatim>\<open>--count || arr\<close>, which calls nothing.
\<close>

fun hydrate_loop ::
  "('r \<Rightarrow> err option \<times> 'e) \<Rightarrow> 'r list \<Rightarrow> 'e list \<Rightarrow> 'e callback_call list
     \<Rightarrow> 'e list \<times> 'e callback_call list" where
  "hydrate_loop init [] arr called = (arr, called)"
| "hydrate_loop init (d # ds) arr called =
     (case init d of
        (Some e, entity) \<Rightarrow> hydrate_loop init ds (arr @ [entity]) (called @ [(Some e, None)])
      | (None, entity) \<Rightarrow> hydrate_loop init ds (arr @ [entity]) called)"

text \<open>
  \<^verbatim>\<open>Array.isArray(docs)\<close>, \<^verbatim>\<open>[docs]\<close> and the elements of an array. The
  loop only ever runs over an array: \<^verbatim>\<open>docs\<close> is wrapped before
  \<^verbatim>\<open>docs.length\<close> is read.
\<close>

definition isArray :: "'r docs \<Rightarrow> bool" where
  "isArray docs = (case docs of Many ds \<Rightarrow> True | Single d \<Rightarrow> False)"

definition wrap :: "'r docs \<Rightarrow> 'r docs" where
  "wrap docs = (case docs of Many ds \<Rightarrow> Many ds | Single d \<Rightarrow> Many [d])"

definition elements :: "'r docs \<Rightarrow> 'r list" where
  "elements docs = (case docs of Many ds \<Rightarrow> ds | Single d \<Rightarrow> [])"

text \<open>\<^verbatim>\<open>arr[0]\<close>.\<close>

definition first :: "'e list \<Rightarrow> 'e hydrated" where
  "first arr = (case arr of [] \<Rightarrow> Undefined | x # xs \<Rightarrow> One x)"

text \<open>
  \<^verbatim>\<open>Model.hydrate(docs, callback)\<close> (src/lib/model.js, lines 496-514): the calls
  of \<^verbatim>\<open>callback\<close>, in order. \<^verbatim>\<open>docArray\<close> is taken before \<^verbatim>\<open>docs\<close> is
  wrapped. The last call, after the loop, is not guarded by anything.
\<close>

definition Model_hydrate :: "('r \<Rightarrow> err option \<times> 'e) \<Rightarrow> 'r docs \<Rightarrow> 'e callback_call list" where
  "Model_hydrate init docs =
     (let docArray = isArray docs;
          docs' = (if docArray then docs else wrap docs);
          (arr, called) = hydrate_loop init (elements docs') [] []
      in called @ [(None, Some (if docArray then Seq arr else first arr))])"

text \<open>
  \<^verbatim>\<open>hydrate(model, docs, callback)\<close> (src/lib/model.js, lines 1120-1138): here
  \<^verbatim>\<open>Array.isArray(docs)\<close> is evaluated again at the end, after \<^verbatim>\<open>docs\<close> has
  been wrapped.
\<close>

definition hydrate :: "('r \<Rightarrow> err option \<times> 'e) \<Rightarrow> 'r docs \<Rightarrow> 'e callback_call list" where
  "hydrate init docs =
     (let docs' = (if \<not> isArray docs then wrap docs else docs);
          (arr, called) = hydrate_loop init (elements docs') [] []
      in called @ [(None, Some (if isArray docs' then Seq arr else first arr))])"

text \<open>An \<^verbatim>\<open>init\<close> for the examples: the record \<^verbatim>\<open>bad\<close> fails to initialise.\<close>

datatype 'r entity_of = Entity 'r

definition example_init :: "string \<Rightarrow> err option \<times> string entity_of" where
  "example_init d = (if d = ''bad'' then Some (Err ''cast failed'') else None, Entity d)"

subsection \<open>What the callback receives\<close>

lemma hydrate_loop_arr:
  "fst (hydrate_loop init ds arr called) = arr @ map (\<lambda>d. snd (init d)) ds"
  by (induction ds arbitrary: arr called) (auto split: prod.splits option.splits)

text \<open>
  \<^verbatim>\<open>Model.hydrate\<close> keeps the shape of its input in its last call of the
  callback: one entity for one record, a sequence of the same length and order
  for a sequence.
\<close>

lemma Model_hydrate_last:
  "last (Model_hydrate init (Single d)) = (None, Some (One (snd (init d))))"
  "last (Model_hydrate init (Many ds)) = (None, Some (Seq (map (\<lambda>d. snd (init d)) ds)))"
  using hydrate_loop_arr [of init "[d]" "[]" "[]"] hydrate_loop_arr [of init ds "[]" "[]"]
  by (auto simp: Model_hydrate_def first_def isArray_def wrap_def elements_def split: prod.splits)

text \<open>\<^verbatim>\<open>hydrate\<close> always passes a sequence in its last call.\<close>

lemma hydrate_last:
  "last (hydrate init docs) = (None, Some (Seq (map (\<lambda>d. snd (init d)) (elements (wrap docs)))))"
  using hydrate_loop_arr [of init "elements (wrap docs)" "[]" "[]"]
  by (cases docs) (auto simp: hydrate_def isArray_def wrap_def elements_def split: prod.splits)

text \<open>
  C5, evaluated. A batch of two records whose first fails to initialise: both
  functions call the callback twice, first with the error, then with no error
  and both entities, the failed one included.
\<close>

theorem hydrate_failure_delivers_batch:
  "Model_hydrate example_init (Many [''bad'', ''ok''])
     = [(Some (Err ''cast failed''), None), (None, Some (Seq [Entity ''bad'', Entity ''ok'']))]
   \<and> hydrate example_init (Many [''bad'', ''ok''])
     = [(Some (Err ''cast failed''), None), (None, Some (Seq [Entity ''bad'', Entity ''ok'']))]"
  by (simp add: Model_hydrate_def hydrate_def example_init_def isArray_def wrap_def elements_def)

text \<open>
  C6, evaluated. For one record that initialises, \<^verbatim>\<open>hydrate\<close> passes a
  one-element sequence to the callback, where \<^verbatim>\<open>Model.hydrate\<close> passes the
  entity.
\<close>

theorem hydrate_single_gives_sequence:
  "hydrate example_init (Single ''ok'') = [(None, Some (Seq [Entity ''ok'']))]
   \<and> Model_hydrate example_init (Single ''ok'') = [(None, Some (One (Entity ''ok'')))]"
  by (simp add: Model_hydrate_def hydrate_def example_init_def first_def isArray_def wrap_def
      elements_def)

section \<open>Result reassembler: \<^verbatim>\<open>assignRawDocsToIdStructure\<close>\<close>

text \<open>
  An element of \<^verbatim>\<open>rawIds\<close> (src/lib/model.js, lines 1217-1292): \<^verbatim>\<open>null\<close>,
  a nested array of ids, or any other value, which the code only reads through
  \<^verbatim>\<open>String(id)\<close> and is given here by that string. A found record is read
  through \<^verbatim>\<open>String(vals[f]._id)\<close>.
\<close>

datatype idval = Null | Ident string | Arr "idval list"

datatype doc = Doc (id_string: string) (body: string)

text \<open>
  What the array holds when the function returns: \<^verbatim>\<open>null\<close>, an id left in
  place, a found record, or a nested array. JavaScript arrays can have holes
  (\<^verbatim>\<open>newOrder[f] = ...\<close> beyond the length leaves the slots before \<open>f\<close>
  empty), so an array is a list of optional values, \<open>None\<close> for a hole.
\<close>

datatype val = VNull | VId string | VDoc doc | VArr "val option list"

text \<open>\<^verbatim>\<open>xs.push(v)\<close> and \<^verbatim>\<open>xs[i] = v\<close>.\<close>

definition push :: "'a option list \<Rightarrow> 'a \<Rightarrow> 'a option list" where
  "push xs v = xs @ [Some v]"

definition set_at :: "'a option list \<Rightarrow> nat \<Rightarrow> 'a \<Rightarrow> 'a option list" where
  "set_at xs i v =
     (if i < length xs then xs[i := Some v]
      else xs @ replicate (i - length xs) None @ [Some v])"

text \<open>
  The inner loop over \<^verbatim>\<open>vals\<close>: the index of the first record whose id
  string equals \<open>sid\<close>.
\<close>

fun match_index :: "string \<Rightarrow> doc list \<Rightarrow> nat option" where
  "match_index sid [] = None"
| "match_index sid (d # ds) =
     (if sid = id_string d then Some 0 else map_option Suc (match_index sid ds))"

text \<open>
  The end of the function: \<^verbatim>\<open>rawIds.length = 0\<close>, then
  \<^verbatim>\<open>newOrder.forEach(function (doc, i) { rawIds[i] = doc })\<close>, which passes over
  holes. \<open>copy_from i\<close> is the iteration from index \<open>i\<close> on.
\<close>

fun copy_from :: "nat \<Rightarrow> 'a option list \<Rightarrow> 'a option list \<Rightarrow> 'a option list" where
  "copy_from i [] rawIds = rawIds"
| "copy_from i (None # newOrder) rawIds = copy_from (Suc i) newOrder rawIds"
| "copy_from i (Some doc # newOrder) rawIds = copy_from (Suc i) newOrder (set_at rawIds i doc)"

text \<open>
  The body of the loop for an id that is not an array and not a kept
  \<^verbatim>\<open>null\<close>: the find rules when \<^verbatim>\<open>recursed\<close>, the findOne rules
  otherwise. \<open>idv\<close> is the id as it is pushed back when nothing matches.
\<close>

definition place ::
  "bool \<Rightarrow> bool \<Rightarrow> doc list \<Rightarrow> nat \<Rightarrow> string \<Rightarrow> val \<Rightarrow> val option list \<Rightarrow> val option list" where
  "place sorting recursed vals i sid idv newOrder =
     (if recursed then
        (case match_index sid vals of
           Some f \<Rightarrow>
             if sorting then set_at newOrder f (VDoc (vals ! f))
             else push newOrder (VDoc (vals ! f))
         | None \<Rightarrow> push newOrder idv)
      else
        set_at newOrder i
          (case match_index sid vals of Some f \<Rightarrow> VDoc (vals ! f) | None \<Rightarrow> VNull))"

text \<open>
  The function, giving the contents of \<^verbatim>\<open>rawIds\<close> when it returns;
  \<open>sort_opt\<close> is the truthiness of \<^verbatim>\<open>options.sort\<close>. \<open>assign_loop\<close> is
  the loop over \<^verbatim>\<open>rawIds\<close> from index \<open>i\<close> on. A nested array is
  reassembled by the recursive call, always with \<^verbatim>\<open>recursed = true\<close>, and
  pushed.
\<close>

fun assignRawDocsToIdStructure :: "idval list \<Rightarrow> doc list \<Rightarrow> bool \<Rightarrow> bool \<Rightarrow> val option list"
  and assign_loop ::
    "idval list \<Rightarrow> nat \<Rightarrow> bool \<Rightarrow> doc list \<Rightarrow> bool \<Rightarrow> bool \<Rightarrow> val option list \<Rightarrow> val option list" where
  "assignRawDocsToIdStructure rawIds vals sort_opt recursed =
     copy_from 0
       (assign_loop rawIds 0 (sort_opt \<and> length rawIds > 1) vals sort_opt recursed []) []"
| "assign_loop [] i sorting vals sort_opt recursed newOrder = newOrder"
| "assign_loop (Arr ids # rest) i sorting vals sort_opt recursed newOrder =
     assign_loop rest (Suc i) sorting vals sort_opt recursed
       (push newOrder (VArr (assignRawDocsToIdStructure ids vals sort_opt True)))"
| "assign_loop (Null # rest) i sorting vals sort_opt recursed newOrder =
     assign_loop rest (Suc i) sorting vals sort_opt recursed
       (if \<not> sorting then push newOrder VNull
        else place sorting recursed vals i ''null'' VNull newOrder)"
| "assign_loop (Ident s # rest) i sorting vals sort_opt recursed newOrder =
     assign_loop rest (Suc i) sorting vals sort_opt recursed
       (place sorting recursed vals i s (VId s) newOrder)"



subsection \<open>Arrays with holes\<close>

lemma set_at_length: "length (set_at xs i v) = max (length xs) (Suc i)"
  by (auto simp: set_at_def)

lemma set_at_same: "set_at xs i v ! i = Some v"
  by (auto simp: set_at_def nth_append)

lemma set_at_other: "j \<noteq> i \<Longrightarrow> j < length xs \<Longrightarrow> set_at xs i v ! j = xs ! j"
  by (auto simp: set_at_def nth_append)

lemma copy_from_keeps:
  "j < length acc \<Longrightarrow> length acc \<le> i \<Longrightarrow>
     j < length (copy_from i xs acc) \<and> copy_from i xs acc ! j = acc ! j"
proof (induction i xs acc rule: copy_from.induct)
  case (1 i rawIds)
  then show ?case by simp
next
  case (2 i newOrder rawIds)
  then show ?case by simp
next
  case (3 i doc newOrder rawIds)
  have "j < length (set_at rawIds i doc)" "length (set_at rawIds i doc) \<le> Suc i"
    using "3.prems" by (simp_all add: set_at_length)
  from "3.IH" [OF this] show ?case
    using "3.prems" by (simp add: set_at_other)
qed

lemma copy_from_nth:
  "k < length xs \<Longrightarrow> xs ! k = Some v \<Longrightarrow> length acc \<le> i \<Longrightarrow>
     i + k < length (copy_from i xs acc) \<and> copy_from i xs acc ! (i + k) = Some v"
proof (induction i xs acc arbitrary: k rule: copy_from.induct)
  case (1 i rawIds)
  then show ?case by simp
next
  case (2 i newOrder rawIds)
  then obtain k' where k: "k = Suc k'" by (cases k) auto
  with "2.prems" have "k' < length newOrder" "newOrder ! k' = Some v" "length rawIds \<le> Suc i"
    by simp_all
  from "2.IH" [OF this] show ?case by (simp add: k)
next
  case (3 i doc newOrder rawIds)
  show ?case
  proof (cases k)
    case 0
    have "i < length (set_at rawIds i doc)" "length (set_at rawIds i doc) \<le> Suc i"
      using "3.prems" by (simp_all add: set_at_length)
    from copy_from_keeps [OF this, of newOrder] "3.prems" 0 show ?thesis
      by (simp add: set_at_same)
  next
    case (Suc k')
    with "3.prems" have "k' < length newOrder" "newOrder ! k' = Some v"
      "length (set_at rawIds i doc) \<le> Suc i"
      by (simp_all add: set_at_length)
    from "3.IH" [OF this] show ?thesis by (simp add: Suc)
  qed
qed


subsection \<open>Find-many with a sort order\<close>

declare assignRawDocsToIdStructure.simps [simp del]

lemma push_keeps:
  "f < length xs \<Longrightarrow> f < length (push xs v) \<and> push xs v ! f = xs ! f"
  by (simp add: push_def nth_append)

text \<open>
  Once \<open>newOrder[f]\<close> holds \<open>vals[f]\<close> it keeps it: a push appends, and an
  assignment at \<open>f\<close> stores \<open>vals[f]\<close> again.
\<close>

lemma place_sorted_keeps:
  assumes "f < length newOrder" and "newOrder ! f = Some (VDoc (vals ! f))"
  shows "f < length (place True True vals i sid idv newOrder)
       \<and> place True True vals i sid idv newOrder ! f = Some (VDoc (vals ! f))"
proof (cases "match_index sid vals")
  case None
  then show ?thesis using assms by (simp add: place_def push_keeps)
next
  case (Some g)
  show ?thesis
  proof (cases "g = f")
    case True
    with Some assms show ?thesis by (simp add: place_def set_at_length set_at_same)
  next
    case False
    with Some assms show ?thesis by (simp add: place_def set_at_length set_at_other)
  qed
qed

lemma assign_loop_sorted_keeps:
  "f < length newOrder \<Longrightarrow> newOrder ! f = Some (VDoc (vals ! f)) \<Longrightarrow>
     f < length (assign_loop ids i True vals sort_opt True newOrder)
     \<and> assign_loop ids i True vals sort_opt True newOrder ! f = Some (VDoc (vals ! f))"
proof (induction ids arbitrary: i newOrder)
  case Nil
  then show ?case by simp
next
  case (Cons idv ids)
  show ?case
  proof (cases idv)
    case Null
    with Cons.IH [OF place_sorted_keeps [OF Cons.prems, THEN conjunct1]
        place_sorted_keeps [OF Cons.prems, THEN conjunct2]]
    show ?thesis by simp
  next
    case (Ident s)
    with Cons.IH [OF place_sorted_keeps [OF Cons.prems, THEN conjunct1]
        place_sorted_keeps [OF Cons.prems, THEN conjunct2]]
    show ?thesis by simp
  next
    case (Arr xs)
    from Cons.prems have "f < length (push newOrder (VArr (assignRawDocsToIdStructure xs vals sort_opt True)))"
      "push newOrder (VArr (assignRawDocsToIdStructure xs vals sort_opt True)) ! f = Some (VDoc (vals ! f))"
      by (simp_all add: push_keeps)
    from Cons.IH [OF this] Arr show ?thesis by simp
  qed
qed

lemma assign_loop_sorted_places:
  "Ident s \<in> set ids \<Longrightarrow> match_index s vals = Some f \<Longrightarrow>
     f < length (assign_loop ids i True vals sort_opt True newOrder)
     \<and> assign_loop ids i True vals sort_opt True newOrder ! f = Some (VDoc (vals ! f))"
proof (induction ids arbitrary: i newOrder)
  case Nil
  then show ?case by simp
next
  case (Cons idv ids)
  show ?case
  proof (cases "idv = Ident s")
    case True
    have "f < length (place True True vals i s (VId s) newOrder)"
      "place True True vals i s (VId s) newOrder ! f = Some (VDoc (vals ! f))"
      using Cons.prems(2) by (simp_all add: place_def set_at_length set_at_same)
    from assign_loop_sorted_keeps [OF this] True show ?thesis by simp
  next
    case False
    with Cons.prems have "Ident s \<in> set ids" by simp
    from Cons.IH [OF this Cons.prems(2)] show ?thesis
      by (cases idv) simp_all
  qed
qed

text \<open>
  C1, as the code has it. In find-many mode with a sort order
  (\<^verbatim>\<open>options.sort\<close> truthy and more than one requested id), the first found
  record whose id string equals a requested id is placed at the index that
  record has in \<^verbatim>\<open>vals\<close> (\<^verbatim>\<open>newOrder[f] = vals[f]\<close>), not at the index of
  the requested id.
\<close>

theorem sorted_find_places_at_found_index:
  assumes "sort_opt" and "length rawIds > 1"
    and "Ident s \<in> set rawIds" and "match_index s vals = Some f"
  shows "f < length (assignRawDocsToIdStructure rawIds vals sort_opt True)
       \<and> assignRawDocsToIdStructure rawIds vals sort_opt True ! f = Some (VDoc (vals ! f))"
proof -
  let ?newOrder = "assign_loop rawIds 0 True vals sort_opt True []"
  have "f < length ?newOrder \<and> ?newOrder ! f = Some (VDoc (vals ! f))"
    using assms(3,4) by (rule assign_loop_sorted_places)
  then have "0 + f < length (copy_from 0 ?newOrder []) \<and> copy_from 0 ?newOrder [] ! (0 + f) = Some (VDoc (vals ! f))"
    by (intro copy_from_nth) simp_all
  then show ?thesis
    using assms(1,2) by (simp add: assignRawDocsToIdStructure.simps)
qed

theorem sorted_find_places_at_found_index_witness:
  "assignRawDocsToIdStructure [Ident ''x'', Ident ''y''] [Doc ''y'' ''why'', Doc ''x'' ''ex''] True True ! 1
     = Some (VDoc (Doc ''x'' ''ex''))"
proof -
  have h: "match_index ''x'' [Doc ''y'' ''why'', Doc ''x'' ''ex''] = Some 1" by simp
  from sorted_find_places_at_found_index [of True "[Ident ''x'', Ident ''y'']" "''x''"
      "[Doc ''y'' ''why'', Doc ''x'' ''ex'']" 1, OF _ _ _ h]
  show ?thesis by simp
qed

text \<open>
  The example of the spec: requested \<^verbatim>\<open>["x","y"]\<close>, found \<^verbatim>\<open>y\<close> then
  \<^verbatim>\<open>x\<close>. The result keeps the order of the found records; it is not the
  requested order.
\<close>

theorem sorted_find_keeps_found_order:
  "assignRawDocsToIdStructure [Ident ''x'', Ident ''y''] [Doc ''y'' ''why'', Doc ''x'' ''ex''] True True
     = [Some (VDoc (Doc ''y'' ''why'')), Some (VDoc (Doc ''x'' ''ex''))]
   \<and> assignRawDocsToIdStructure [Ident ''x'', Ident ''y''] [Doc ''y'' ''why'', Doc ''x'' ''ex''] True True
     \<noteq> [Some (VDoc (Doc ''x'' ''ex'')), Some (VDoc (Doc ''y'' ''why''))]"
  by (simp add: assignRawDocsToIdStructure.simps place_def set_at_def push_def)


text \<open>
  When every requested id is found and every found record is the first match of
  a requested id, the result is the list of found records, in their order.
\<close>

lemma match_index_less: "match_index s vals = Some f \<Longrightarrow> f < length vals"
  by (induction vals arbitrary: f) (auto split: if_splits)

lemma copy_from_length:
  "length (copy_from i xs acc) \<le> max (length acc) (i + length xs)"
  by (induction i xs acc rule: copy_from.induct) (auto simp: set_at_length)

lemma assign_loop_sorted_length:
  "\<forall>idv\<in>set ids. \<exists>s f. idv = Ident s \<and> match_index s vals = Some f \<Longrightarrow>
     length (assign_loop ids i True vals sort_opt True newOrder) \<le> max (length newOrder) (length vals)"
proof (induction ids arbitrary: i newOrder)
  case Nil
  then show ?case by simp
next
  case (Cons idv ids)
  then obtain s f where s: "idv = Ident s" "match_index s vals = Some f" by auto
  then have "length (place True True vals i s (VId s) newOrder) \<le> max (length newOrder) (length vals)"
    using match_index_less [of s vals f] by (simp add: place_def set_at_length)
  moreover have "length (assign_loop ids (Suc i) True vals sort_opt True (place True True vals i s (VId s) newOrder))
      \<le> max (length (place True True vals i s (VId s) newOrder)) (length vals)"
    using Cons.prems by (intro Cons.IH) simp
  ultimately show ?case using s by simp
qed

lemma sorted_find_is_found_list:
  assumes "sort_opt" and "length rawIds > 1"
    and all_found: "\<forall>idv\<in>set rawIds. \<exists>s f. idv = Ident s \<and> match_index s vals = Some f"
    and all_asked: "\<forall>f<length vals. \<exists>s. Ident s \<in> set rawIds \<and> match_index s vals = Some f"
  shows "assignRawDocsToIdStructure rawIds vals sort_opt True = map (\<lambda>d. Some (VDoc d)) vals"
proof (rule nth_equalityI)
  let ?r = "assignRawDocsToIdStructure rawIds vals sort_opt True"
  have at: "f < length ?r \<and> ?r ! f = Some (VDoc (vals ! f))" if "f < length vals" for f
  proof -
    from all_asked that obtain s where "Ident s \<in> set rawIds" "match_index s vals = Some f"
      by blast
    then show ?thesis
      using assms(1,2) assign_loop_sorted_places [of s rawIds vals f 0 sort_opt "[]"]
        copy_from_nth [of f "assign_loop rawIds 0 True vals sort_opt True []" _ "[]" 0]
      by (simp add: assignRawDocsToIdStructure.simps)
  qed
  have "length ?r \<le> length vals"
    using assms(1,2) assign_loop_sorted_length [OF all_found, of 0 sort_opt "[]"]
      copy_from_length [of 0 "assign_loop rawIds 0 True vals sort_opt True []" "[]"]
    by (simp add: assignRawDocsToIdStructure.simps)
  moreover have "length vals \<le> length ?r"
  proof (cases vals)
    case Nil
    then show ?thesis by simp
  next
    case (Cons d ds)
    then have "length vals - 1 < length vals" by simp
    from at [OF this] have "length vals - 1 < length ?r" by blast
    with Cons show ?thesis by simp
  qed
  ultimately show "length ?r = length (map (\<lambda>d. Some (VDoc d)) vals)" by simp
  show "?r ! f = map (\<lambda>d. Some (VDoc d)) vals ! f" if "f < length ?r" for f
    using that at [of f] \<open>length ?r \<le> length vals\<close> by simp
qed

section \<open>Bulk removal: \<^verbatim>\<open>Model.remove\<close> and \<^verbatim>\<open>NativeCollection.prototype.bulkRemove\<close>\<close>

text \<open>
  The caller's documents are objects that the caller and the callee share, so
  objects live in a store: an address names an object, an object maps field
  names to values. An element of the array \<^verbatim>\<open>docs\<close> is a reference to an
  object, a primitive (on which a property assignment is dropped), or
  \<^verbatim>\<open>null\<close>/\<^verbatim>\<open>undefined\<close> (on which it raises a TypeError).
\<close>

datatype field_value = Bool bool | Text string

type_synonym object = "string \<Rightarrow> field_value option"

type_synonym store = "nat \<Rightarrow> object"

datatype element = Ref nat | Primitive string | Nullish

text \<open>\<^verbatim>\<open>doc._deleted = true\<close>.\<close>

definition set_deleted :: "nat \<Rightarrow> store \<Rightarrow> store" where
  "set_deleted a h = h(a := (h a)(''_deleted'' \<mapsto> Bool True))"

text \<open>
  \<^verbatim>\<open>docs.forEach(function (doc) { doc._deleted = true; })\<close>: the store when the
  loop ends, and the error that ended it, if any.
\<close>

fun mark_all :: "element list \<Rightarrow> store \<Rightarrow> store \<times> js_error option" where
  "mark_all [] h = (h, None)"
| "mark_all (Ref a # docs) h = mark_all docs (set_deleted a h)"
| "mark_all (Primitive p # docs) h = mark_all docs h"
| "mark_all (Nullish # docs) h = (h, Some TypeError)"

text \<open>
  The backend call \<^verbatim>\<open>this.collection.save(docs, callback)\<close>: the array it is
  given and the objects it refers to, as they are in the store at the call.
\<close>

datatype save_call = Save "element list" "object option list"

definition deref :: "store \<Rightarrow> element \<Rightarrow> object option" where
  "deref h d = (case d of Ref a \<Rightarrow> Some (h a) | Primitive p \<Rightarrow> None | Nullish \<Rightarrow> None)"

text \<open>\<^verbatim>\<open>NativeCollection.prototype.bulkRemove(docs, callback)\<close> (src/unnamed/part_001).\<close>

definition bulkRemove :: "element list \<Rightarrow> store \<Rightarrow> store \<times> (js_error + save_call)" where
  "bulkRemove docs h =
     (case mark_all docs h of
        (h', Some e) \<Rightarrow> (h', Inl e)
      | (h', None) \<Rightarrow> (h', Inr (Save docs (map (deref h') docs))))"

text \<open>\<^verbatim>\<open>Model.remove(docs, callback)\<close> hands its arguments on.\<close>

definition Model_remove :: "element list \<Rightarrow> store \<Rightarrow> store \<times> (js_error + save_call)" where
  "Model_remove docs h = bulkRemove docs h"

text \<open>An example store: three documents of the caller.\<close>

definition example_store :: store where
  "example_store =
     (\<lambda>a. Map.empty)(0 := [''_id'' \<mapsto> Text ''a''], 1 := [''_id'' \<mapsto> Text ''b''],
                      2 := [''_id'' \<mapsto> Text ''c''])"

text \<open>The element is a document object.\<close>

definition is_ref :: "element \<Rightarrow> bool" where
  "is_ref d = (case d of Ref a \<Rightarrow> True | _ \<Rightarrow> False)"

subsection \<open>The caller's objects after the call\<close>

lemma mark_all_refs:
  "list_all is_ref docs \<Longrightarrow>
     mark_all docs h =
       (\<lambda>a. if Ref a \<in> set docs then (h a)(''_deleted'' \<mapsto> Bool True) else h a, None)"
proof (induction docs arbitrary: h)
  case Nil
  then show ?case by simp
next
  case (Cons d docs)
  then obtain a where d: "d = Ref a" by (cases d) (auto simp: is_ref_def)
  from Cons have "mark_all docs (set_deleted a h) =
      (\<lambda>b. if Ref b \<in> set docs then (set_deleted a h b)(''_deleted'' \<mapsto> Bool True)
            else set_deleted a h b, None)"
    by simp
  then show ?case
    by (auto simp: d set_deleted_def fun_eq_iff)
qed

text \<open>
  C10. For every array of document objects, \<^verbatim>\<open>Model.remove\<close> returns
  without error having set \<^verbatim>\<open>_deleted = true\<close> on every object the array
  refers to, in the caller's store; the backend's \<^verbatim>\<open>save\<close> is called with the
  same array and sees the objects so marked. Nothing else changes: the other
  fields of these objects are kept and every other object is untouched.
\<close>

theorem Model_remove_marks_callers_objects:
  assumes "list_all is_ref docs"
  shows "\<exists>h'. Model_remove docs h = (h', Inr (Save docs (map (deref h') docs)))
           \<and> (\<forall>a. Ref a \<in> set docs \<longrightarrow> h' a = (h a)(''_deleted'' \<mapsto> Bool True))
           \<and> (\<forall>a. Ref a \<notin> set docs \<longrightarrow> h' a = h a)"
  using mark_all_refs [OF assms, of h]
  by (simp add: Model_remove_def bulkRemove_def)

theorem Model_remove_marks_callers_objects_witness:
  "\<exists>h'. Model_remove [Ref 0, Ref 2] example_store
            = (h', Inr (Save [Ref 0, Ref 2]
                 [Some [''_id'' \<mapsto> Text ''a'', ''_deleted'' \<mapsto> Bool True],
                  Some [''_id'' \<mapsto> Text ''c'', ''_deleted'' \<mapsto> Bool True]]))
         \<and> h' 0 ''_deleted'' = Some (Bool True) \<and> h' 2 ''_deleted'' = Some (Bool True)
         \<and> h' 1 = example_store 1 \<and> example_store 0 ''_deleted'' = None"
proof -
  have h: "list_all is_ref [Ref 0, Ref 2]" by (simp add: is_ref_def)
  from Model_remove_marks_callers_objects [OF h, of example_store]
  obtain h' where r: "Model_remove [Ref 0, Ref 2] example_store
        = (h', Inr (Save [Ref 0, Ref 2] (map (deref h') [Ref 0, Ref 2])))"
    and m: "\<forall>a. Ref a \<in> set [Ref 0, Ref 2] \<longrightarrow> h' a = (example_store a)(''_deleted'' \<mapsto> Bool True)"
    and k: "\<forall>a. Ref a \<notin> set [Ref 0, Ref 2] \<longrightarrow> h' a = example_store a"
    by blast
  from m have m0: "h' 0 = (example_store 0)(''_deleted'' \<mapsto> Bool True)"
    and m2: "h' 2 = (example_store 2)(''_deleted'' \<mapsto> Bool True)" by simp_all
  from k have k1: "h' 1 = example_store 1" by simp
  show ?thesis
    using r m0 m2 k1 by (intro exI [of _ h']) (simp add: deref_def example_store_def)
qed

end
